theory Spec2Isabelle
  imports Main "HOL-Library.Sublist"
begin

section \<open>Parallel keyword search: the embedding of \<open>multiprocess.py\<close>\<close>

text \<open>
  Characters are an arbitrary type \<open>'a\<close>: a pattern, a chunk and a file's text are
  \<open>'a list\<close>. File paths are \<open>string\<close>, so \<open>str(file)\<close> is the path itself.
  Every \<open>raise\<close> of the source is a value \<open>Inl e\<close>; a loop whose termination depends on
  the contents of a table returns an \<open>option\<close>, with \<open>None\<close> for not returning.
\<close>

datatype error = IndexError | ZeroDivisionError | FileNotFoundError | ReadError

subsection \<open>Dictionaries\<close>

text \<open>
  The shift table is a plain \<open>dict\<close>, read with \<open>get\<close> and written by assignment and
  \<open>setdefault\<close>. Its values are \<open>length - index - 1\<close> for \<open>index < length - 1\<close> and
  \<open>length\<close>, which are positive, so they are kept as \<open>nat\<close>.
\<close>

type_synonym 'a shift_table = "'a \<rightharpoonup> nat"

definition setdefault :: "('k \<rightharpoonup> 'v) \<Rightarrow> 'k \<Rightarrow> 'v \<Rightarrow> ('k \<rightharpoonup> 'v)" where
  "setdefault table k v = (case table k of None \<Rightarrow> table(k \<mapsto> v) | Some _ \<Rightarrow> table)"

definition get_default :: "('k \<rightharpoonup> 'v) \<Rightarrow> 'k \<Rightarrow> 'v \<Rightarrow> 'v" where
  "get_default table k d = (case table k of None \<Rightarrow> d | Some v \<Rightarrow> v)"

text \<open>
  The result dictionaries are \<open>defaultdict(list)\<close>: keys in insertion order, each with
  its list of file paths. \<open>d[k].extend(vs)\<close> creates the key with an empty list when
  it is missing; \<open>d[k].append(v)\<close> is \<open>dd_extend d k [v]\<close>.
\<close>

type_synonym 'a results = "('a list \<times> string list) list"

fun dd_extend :: "('k \<times> 'v list) list \<Rightarrow> 'k \<Rightarrow> 'v list \<Rightarrow> ('k \<times> 'v list) list" where
  "dd_extend [] k vs = [(k, vs)]"
| "dd_extend ((k', l) # d) k vs =
     (if k' = k then (k', l @ vs) # d else (k', l) # dd_extend d k vs)"

subsection \<open>\<open>build_shift_table\<close>\<close>

text \<open>
  \<open>for index, char in enumerate(pattern[:-1]): table[char] = length - index - 1\<close>,
  then \<open>table.setdefault(pattern[-1], length)\<close>, where \<open>pattern[-1]\<close> raises
  \<open>IndexError\<close> on the empty pattern (the loop before it runs zero times).
\<close>

fun enumerate_loop :: "nat \<Rightarrow> nat \<Rightarrow> 'a list \<Rightarrow> 'a shift_table \<Rightarrow> 'a shift_table" where
  "enumerate_loop len idx [] table = table"
| "enumerate_loop len idx (ch # rest) table =
     enumerate_loop len (Suc idx) rest (table(ch \<mapsto> len - idx - 1))"

definition build_shift_table :: "'a list \<Rightarrow> error + 'a shift_table" where
  "build_shift_table pattern =
     (let table = enumerate_loop (length pattern) 0 (butlast pattern) Map.empty
      in if pattern = [] then Inl IndexError
         else Inr (setdefault table (last pattern) (length pattern)))"

subsection \<open>The scan of one chunk\<close>

definition index :: "'a list \<Rightarrow> nat \<Rightarrow> error + 'a" where
  "index xs i = (if i < length xs then Inr (xs ! i) else Inl IndexError)"

text \<open>
  \<open>while j >= 0 and chunk[i + j] == pattern[j]: j -= 1\<close>, started at
  \<open>j = len(pattern) - 1\<close>. The last argument is \<open>j + 1\<close>; the result is the test
  \<open>j < 0\<close> that follows the loop.
\<close>

fun compare_loop :: "'a list \<Rightarrow> 'a list \<Rightarrow> nat \<Rightarrow> nat \<Rightarrow> error + bool" where
  "compare_loop chunk pattern i 0 = Inr True"
| "compare_loop chunk pattern i (Suc j) =
     (case index chunk (i + j) of
        Inl e \<Rightarrow> Inl e
      | Inr a \<Rightarrow>
         (case index pattern j of
            Inl e \<Rightarrow> Inl e
          | Inr b \<Rightarrow> if a = b then compare_loop chunk pattern i j else Inr False))"

text \<open>
  \<open>while i <= len(chunk) - len(pattern)\<close>: on a full match the source appends and
  breaks (the result \<open>True\<close>); otherwise
  \<open>i += shift_table.get(chunk[i + len(pattern) - 1], len(pattern))\<close>. The index
  \<open>i + len(pattern) - 1\<close> is only evaluated after a mismatch, hence with a non-empty
  pattern. With a table that holds a zero the loop does not return.
\<close>

partial_function (option) scan_chunk ::
  "'a shift_table \<Rightarrow> 'a list \<Rightarrow> 'a list \<Rightarrow> nat \<Rightarrow> (error + bool) option" where
  "scan_chunk shift_table pattern chunk i =
     (if int i \<le> int (length chunk) - int (length pattern) then
        (case compare_loop chunk pattern i (length pattern) of
           Inl e \<Rightarrow> Some (Inl e)
         | Inr found \<Rightarrow>
            if found then Some (Inr True)
            else (case index chunk (i + length pattern - 1) of
                    Inl e \<Rightarrow> Some (Inl e)
                  | Inr ch \<Rightarrow>
                     scan_chunk shift_table pattern chunk
                       (i + get_default shift_table ch (length pattern))))
      else Some (Inr False))"

subsection \<open>\<open>read_file_in_chunks\<close>\<close>

text \<open>
  A file system gives each path its decoded text, or the exception that opening or
  reading it raises. \<open>f.read(n)\<close> returns the next \<open>n\<close> characters (fewer at the end
  of the file), and everything that is left when \<open>n\<close> is negative; the generator
  stops at the first empty buffer.
\<close>

type_synonym 'a files = "string \<Rightarrow> error + 'a list"

definition read :: "int \<Rightarrow> 'a list \<Rightarrow> 'a list \<times> 'a list" where
  "read n rest = (if n < 0 then (rest, []) else (take (nat n) rest, drop (nat n) rest))"

function chunks_of :: "int \<Rightarrow> 'a list \<Rightarrow> 'a list list" where
  "chunks_of buffer_size rest =
     (if fst (read buffer_size rest) = [] then []
      else fst (read buffer_size rest) # chunks_of buffer_size (snd (read buffer_size rest)))"
  by pat_completeness auto
termination
  by (relation "measure (\<lambda>(n, rest). length rest)") (auto simp: read_def split: if_splits)

definition read_file_in_chunks :: "'a files \<Rightarrow> string \<Rightarrow> int \<Rightarrow> error + 'a list list" where
  "read_file_in_chunks fs file_path buffer_size =
     (case fs file_path of
        Inl e \<Rightarrow> Inl e
      | Inr content \<Rightarrow> Inr (chunks_of buffer_size content))"

subsection \<open>\<open>bm_search\<close>\<close>

text \<open>
  \<open>for chunk in read_file_in_chunks(file, buffer_size)\<close>: each chunk is scanned from
  \<open>i = 0\<close>, and a match appends \<open>str(file)\<close> to \<open>result_dict[pattern]\<close>. The
  \<open>break\<close> leaves the \<open>while\<close> loop only, so the next chunk is scanned as well.
\<close>

fun chunk_loop ::
  "'a shift_table \<Rightarrow> 'a list \<Rightarrow> string \<Rightarrow> 'a list list \<Rightarrow> 'a results
     \<Rightarrow> (error + 'a results) option" where
  "chunk_loop shift_table pattern file [] result_dict = Some (Inr result_dict)"
| "chunk_loop shift_table pattern file (chunk # chunks) result_dict =
     (case scan_chunk shift_table pattern chunk 0 of
        None \<Rightarrow> None
      | Some (Inl e) \<Rightarrow> Some (Inl e)
      | Some (Inr found) \<Rightarrow>
         chunk_loop shift_table pattern file chunks
           (if found then dd_extend result_dict pattern [file] else result_dict))"

text \<open>
  \<open>for pattern in patterns_list\<close>: the table is built first, then the file is opened
  (again for every pattern). An exception leaves \<open>bm_search\<close> without a result.
\<close>

fun pattern_loop ::
  "'a files \<Rightarrow> string \<Rightarrow> int \<Rightarrow> 'a list list \<Rightarrow> 'a results \<Rightarrow> (error + 'a results) option" where
  "pattern_loop fs file buffer_size [] result_dict = Some (Inr result_dict)"
| "pattern_loop fs file buffer_size (pattern # patterns) result_dict =
     (case build_shift_table pattern of
        Inl e \<Rightarrow> Some (Inl e)
      | Inr shift_table \<Rightarrow>
         (case read_file_in_chunks fs file buffer_size of
            Inl e \<Rightarrow> Some (Inl e)
          | Inr chunks \<Rightarrow>
             (case chunk_loop shift_table pattern file chunks result_dict of
                None \<Rightarrow> None
              | Some (Inl e) \<Rightarrow> Some (Inl e)
              | Some (Inr result_dict') \<Rightarrow>
                 pattern_loop fs file buffer_size patterns result_dict')))"

definition bm_search ::
  "'a files \<Rightarrow> string \<Rightarrow> 'a list list \<Rightarrow> int \<Rightarrow> (error + 'a results) option" where
  "bm_search fs file patterns_list buffer_size =
     pattern_loop fs file buffer_size patterns_list []"

subsection \<open>\<open>search_keywords_in_files\<close>\<close>

text \<open>
  \<open>for keyword, paths in search_results.items(): results[keyword].extend(paths)\<close>.
\<close>

fun merge_items :: "'a results \<Rightarrow> 'a results \<Rightarrow> 'a results" where
  "merge_items results [] = results"
| "merge_items results ((keyword, paths) # items) =
     merge_items (dd_extend results keyword paths) items"

text \<open>
  The worker's loop over its files. Both \<open>except\<close> clauses log and go on to the next
  file; the value returned is what the worker puts on the queue.
\<close>

fun files_loop ::
  "'a files \<Rightarrow> 'a list list \<Rightarrow> int \<Rightarrow> string list \<Rightarrow> 'a results \<Rightarrow> 'a results option" where
  "files_loop fs keywords buffer_size [] results = Some results"
| "files_loop fs keywords buffer_size (file_path # rest) results =
     (case bm_search fs file_path keywords buffer_size of
        None \<Rightarrow> None
      | Some (Inl e) \<Rightarrow> files_loop fs keywords buffer_size rest results
      | Some (Inr search_results) \<Rightarrow>
         files_loop fs keywords buffer_size rest (merge_items results search_results))"

definition search_keywords_in_files ::
  "'a files \<Rightarrow> string list \<Rightarrow> 'a list list \<Rightarrow> int \<Rightarrow> 'a results option" where
  "search_keywords_in_files fs files keywords buffer_size =
     files_loop fs keywords buffer_size files []"

subsection \<open>\<open>multiprocessing_search\<close>\<close>

text \<open>
  Python's \<open>xs[start:end]\<close>: a negative bound counts from the end, and both are
  clamped to the list.
\<close>

definition slice_bound :: "int \<Rightarrow> int \<Rightarrow> int" where
  "slice_bound k len = (if k < 0 then max (k + len) 0 else min k len)"

definition py_slice :: "'a list \<Rightarrow> int \<Rightarrow> int \<Rightarrow> 'a list" where
  "py_slice xs start end =
     (let len = int (length xs); s = slice_bound start len; e = slice_bound end len
      in take (nat (e - s)) (drop (nat s) xs))"

text \<open>
  The slice of worker \<open>i\<close>: \<open>chunk_size = len(files) // num_processes\<close>,
  \<open>start_index = i * chunk_size\<close>, and \<open>end_index = (i + 1) * chunk_size\<close> except for
  the last worker, whose slice ends with the list.
\<close>

definition process_files :: "'f list \<Rightarrow> int \<Rightarrow> int \<Rightarrow> 'f list" where
  "process_files files num_processes i =
     (let chunk_size = int (length files) div num_processes;
          start_index = i * chunk_size;
          end_index = (if i \<noteq> num_processes - 1 then (i + 1) * chunk_size
                       else int (length files))
      in py_slice files start_index end_index)"

text \<open>\<open>range(num_processes)\<close> is empty for a negative argument.\<close>

definition py_range :: "int \<Rightarrow> int list" where
  "py_range n = map int [0..<nat n]"

definition partition_files :: "'f list \<Rightarrow> int \<Rightarrow> 'f list list" where
  "partition_files files num_processes =
     map (process_files files num_processes) (py_range num_processes)"

text \<open>
  One process per slice; each puts one result on the queue. The queue is modelled in
  the order of the workers (the real order is the order in which they finish).
\<close>

fun run_processes ::
  "'a files \<Rightarrow> 'a list list \<Rightarrow> int \<Rightarrow> string list list \<Rightarrow> 'a results list option" where
  "run_processes fs keywords buffer_size [] = Some []"
| "run_processes fs keywords buffer_size (slice # slices) =
     (case search_keywords_in_files fs slice keywords buffer_size of
        None \<Rightarrow> None
      | Some result \<Rightarrow>
         (case run_processes fs keywords buffer_size slices of
            None \<Rightarrow> None
          | Some queue \<Rightarrow> Some (result # queue)))"

text \<open>\<open>while not queue.empty(): ... final_results[keyword].extend(paths)\<close>.\<close>

fun drain_queue :: "'a results list \<Rightarrow> 'a results \<Rightarrow> 'a results" where
  "drain_queue [] final_results = final_results"
| "drain_queue (result # queue) final_results =
     drain_queue queue (merge_items final_results result)"

record 'a search_run =
  processes :: "string list list"
  final_results :: "'a results"

text \<open>
  \<open>num_processes\<close> is the count after \<open>None\<close> has been replaced by \<open>cpu_count()\<close>.
  The division raises \<open>ZeroDivisionError\<close> for zero. The run records the slice given
  to each process that was started, next to the dictionary returned.
\<close>

definition multiprocessing_search ::
  "'a files \<Rightarrow> string list \<Rightarrow> 'a list list \<Rightarrow> int \<Rightarrow> int \<Rightarrow> (error + 'a search_run) option" where
  "multiprocessing_search fs files keywords num_processes buffer_size =
     (if num_processes = 0 then Some (Inl ZeroDivisionError)
      else
        (let procs = partition_files files num_processes
         in case run_processes fs keywords buffer_size procs of
              None \<Rightarrow> None
            | Some queue \<Rightarrow>
               Some (Inr \<lparr>processes = procs, final_results = drain_queue queue []\<rparr>)))"

subsection \<open>Vocabulary of the properties\<close>

text \<open>The pattern stands in the chunk at offset \<open>k\<close>.\<close>

definition occurs_at :: "'a list \<Rightarrow> 'a list \<Rightarrow> nat \<Rightarrow> bool" where
  "occurs_at chunk pattern k =
     (k + length pattern \<le> length chunk \<and> take (length pattern) (drop k chunk) = pattern)"

text \<open>The number of chunks that contain the pattern.\<close>

definition hits :: "'a list \<Rightarrow> 'a list list \<Rightarrow> nat" where
  "hits pattern chunks = length (filter (sublist pattern) chunks)"

text \<open>Reading a \<open>defaultdict(list)\<close>: a missing key reads as the empty list.\<close>

definition entries :: "('k \<times> 'v list) list \<Rightarrow> 'k \<Rightarrow> 'v list" where
  "entries d k = (case map_of d k of None \<Rightarrow> [] | Some l \<Rightarrow> l)"

text \<open>The chunks that the generator yields for a file (none when it cannot be read).\<close>

definition file_chunks :: "'a files \<Rightarrow> string \<Rightarrow> int \<Rightarrow> 'a list list" where
  "file_chunks fs file buffer_size =
     (case read_file_in_chunks fs file buffer_size of Inl e \<Rightarrow> [] | Inr chunks \<Rightarrow> chunks)"

text \<open>Every path that stands in some list of a result dictionary.\<close>

definition all_paths :: "('k \<times> 'v list) list \<Rightarrow> 'v set" where
  "all_paths d = set (concat (map snd d))"

text \<open>
  The files of the scenario used in the examples: \<open>a.txt\<close> and \<open>b.txt\<close> exist, and
  any other path raises \<open>FileNotFoundError\<close>.
\<close>

definition scenario_fs :: "char files" where
  "scenario_fs p = (if p = ''a.txt'' then Inr ''the book is here''
                    else if p = ''b.txt'' then Inr ''summer is great''
                    else Inl FileNotFoundError)"

declare chunks_of.simps [simp del]

declare scan_chunk.simps [code]

section \<open>Properties\<close>

subsection \<open>The loop that fills the shift table\<close>

lemma enumerate_loop_absent:
  "ch \<notin> set xs \<Longrightarrow> enumerate_loop len idx xs table ch = table ch"
  by (induction xs arbitrary: idx table) auto

lemma enumerate_loop_dom:
  "dom (enumerate_loop len idx xs table) = dom table \<union> set xs"
  by (induction xs arbitrary: idx table) auto

lemma enumerate_loop_rightmost:
  "k < length xs \<Longrightarrow> \<forall>k'. k < k' \<and> k' < length xs \<longrightarrow> xs ! k' \<noteq> xs ! k
     \<Longrightarrow> enumerate_loop len idx xs table (xs ! k) = Some (len - (idx + k) - 1)"
proof (induction xs arbitrary: idx table k)
  case Nil
  then show ?case by simp
next
  case (Cons x xs)
  show ?case
  proof (cases k)
    case 0
    have "x \<notin> set xs"
    proof
      assume "x \<in> set xs"
      then obtain m where "m < length xs" "xs ! m = x"
        by (auto simp: in_set_conv_nth)
      with Cons.prems(2) 0 show False
        by (auto dest: spec [of _ "Suc m"])
    qed
    with 0 show ?thesis
      by (simp add: enumerate_loop_absent)
  next
    case (Suc m)
    have "\<forall>k'. m < k' \<and> k' < length xs \<longrightarrow> xs ! k' \<noteq> xs ! m"
    proof (intro allI impI)
      fix k' assume "m < k' \<and> k' < length xs"
      with Cons.prems(2) [rule_format, of "Suc k'"] Suc show "xs ! k' \<noteq> xs ! m"
        by simp
    qed
    with Cons.IH [of m "Suc idx"] Cons.prems(1) Suc show ?thesis
      by simp
  qed
qed

lemma rightmost_index:
  "c \<in> set xs \<Longrightarrow> \<exists>k<length xs. xs ! k = c \<and> (\<forall>k'. k < k' \<and> k' < length xs \<longrightarrow> xs ! k' \<noteq> c)"
proof (induction xs)
  case Nil
  then show ?case by simp
next
  case (Cons x xs)
  show ?case
  proof (cases "c \<in> set xs")
    case True
    with Cons.IH obtain k where k: "k < length xs" "xs ! k = c"
      "\<forall>k'. k < k' \<and> k' < length xs \<longrightarrow> xs ! k' \<noteq> c" by blast
    have "\<forall>k'. Suc k < k' \<and> k' < length (x # xs) \<longrightarrow> (x # xs) ! k' \<noteq> c"
    proof (intro allI impI)
      fix k' assume h: "Suc k < k' \<and> k' < length (x # xs)"
      then obtain j where "k' = Suc j" by (cases k') auto
      with h k(3) show "(x # xs) ! k' \<noteq> c" by simp
    qed
    with k(1,2) show ?thesis
      by (intro exI [of _ "Suc k"]) simp
  next
    case False
    with Cons.prems have "x = c" by simp
    with False show ?thesis
      by (intro exI [of _ 0]) (auto simp: nth_Cons' )
  qed
qed

text \<open>The value stored for a character of \<open>pattern[:-1]\<close>.\<close>

lemma enumerate_loop_value:
  assumes "c \<in> set xs"
  shows "\<exists>k<length xs. xs ! k = c \<and> (\<forall>k'. k < k' \<and> k' < length xs \<longrightarrow> xs ! k' \<noteq> c)
           \<and> enumerate_loop len 0 xs table c = Some (len - k - 1)"
proof -
  from rightmost_index [OF assms] obtain k where k: "k < length xs" "xs ! k = c"
    "\<forall>k'. k < k' \<and> k' < length xs \<longrightarrow> xs ! k' \<noteq> c" by blast
  from enumerate_loop_rightmost [of k xs len 0 table] k
  have "enumerate_loop len 0 xs table c = Some (len - k - 1)" by simp
  with k show ?thesis by blast
qed

lemma build_shift_table_Inr:
  "pattern \<noteq> [] \<Longrightarrow> build_shift_table pattern =
     Inr (setdefault (enumerate_loop (length pattern) 0 (butlast pattern) Map.empty)
            (last pattern) (length pattern))"
  by (simp add: build_shift_table_def)

lemma setdefault_apply:
  "setdefault table k v c = (if c = k \<and> table k = None then Some v else table c)"
  by (auto simp: setdefault_def split: option.splits)

lemma shift_table_butlast:
  assumes "build_shift_table pattern = Inr table" "c \<in> set (butlast pattern)"
  shows "\<exists>k. k + 1 < length pattern \<and> pattern ! k = c
           \<and> (\<forall>k'. k < k' \<and> k' + 1 < length pattern \<longrightarrow> pattern ! k' \<noteq> c)
           \<and> table c = Some (length pattern - k - 1)"
proof -
  from assms(2) have ne: "pattern \<noteq> []" by auto
  let ?t = "enumerate_loop (length pattern) 0 (butlast pattern) Map.empty"
  from enumerate_loop_value [OF assms(2), of "length pattern" Map.empty]
  obtain k where k: "k < length (butlast pattern)" "butlast pattern ! k = c"
    "\<forall>k'. k < k' \<and> k' < length (butlast pattern) \<longrightarrow> butlast pattern ! k' \<noteq> c"
    "?t c = Some (length pattern - k - 1)" by blast
  from assms(1) ne have t: "table = setdefault ?t (last pattern) (length pattern)"
    by (simp add: build_shift_table_Inr)
  have "table c = Some (length pattern - k - 1)"
    using k(4) by (auto simp: t setdefault_apply)
  moreover have "k + 1 < length pattern" using k(1) by simp
  moreover have "pattern ! k = c" using k(1,2) by (simp add: nth_butlast)
  moreover have "\<forall>k'. k < k' \<and> k' + 1 < length pattern \<longrightarrow> pattern ! k' \<noteq> c"
  proof (intro allI impI)
    fix k' assume h: "k < k' \<and> k' + 1 < length pattern"
    then have "k' < length (butlast pattern)" by auto
    with k(3) h have "butlast pattern ! k' \<noteq> c" by blast
    with \<open>k' < length (butlast pattern)\<close> show "pattern ! k' \<noteq> c" by (simp add: nth_butlast)
  qed
  ultimately show ?thesis by blast
qed

lemma shift_table_not_butlast:
  assumes "build_shift_table pattern = Inr table" "c \<notin> set (butlast pattern)"
  shows "table c = (if c = last pattern then Some (length pattern) else None)"
proof -
  from assms(1) have ne: "pattern \<noteq> []" by (auto simp: build_shift_table_def)
  with assms(1) have t: "table =
      setdefault (enumerate_loop (length pattern) 0 (butlast pattern) Map.empty)
        (last pattern) (length pattern)"
    by (simp add: build_shift_table_Inr)
  show ?thesis
    using assms(2) by (auto simp: t setdefault_apply enumerate_loop_absent)
qed

lemma shift_table_dom:
  assumes "build_shift_table pattern = Inr table"
  shows "dom table = set pattern"
proof -
  from assms have ne: "pattern \<noteq> []" by (auto simp: build_shift_table_def)
  have sp: "set pattern = insert (last pattern) (set (butlast pattern))"
    using ne by (metis append_butlast_last_id list.simps(15) rotate1.simps(2) set_rotate1)
  show ?thesis
  proof (intro set_eqI iffI)
    fix c assume "c \<in> dom table"
    then show "c \<in> set pattern"
      using shift_table_not_butlast [OF assms, of c] sp by (cases "c \<in> set (butlast pattern)") (auto split: if_splits)
  next
    fix c assume "c \<in> set pattern"
    then show "c \<in> dom table"
      using shift_table_not_butlast [OF assms, of c] shift_table_butlast [OF assms, of c] sp
      by (cases "c \<in> set (butlast pattern)") auto
  qed
qed

lemma shift_table_bounds:
  assumes "build_shift_table pattern = Inr table" "table c = Some v"
  shows "1 \<le> v \<and> v \<le> length pattern"
proof (cases "c \<in> set (butlast pattern)")
  case True
  from shift_table_butlast [OF assms(1) True] assms(2) show ?thesis by auto
next
  case False
  from shift_table_not_butlast [OF assms(1) False] assms(2) 
  have "v = length pattern" by (auto split: if_splits)
  moreover from assms(1) have "pattern \<noteq> []" by (auto simp: build_shift_table_def)
  ultimately show ?thesis by (cases pattern) auto
qed

subsection \<open>Claim C4: the shift table\<close>

text \<open>
  C4. For a non-empty pattern of length \<open>L\<close>, \<open>build_shift_table\<close> returns a table
  whose keys are exactly the characters of the pattern and whose values lie in
  \<open>[1, L]\<close>; a character at index \<open>i < L - 1\<close> that does not occur again before the
  last position is mapped to \<open>L - i - 1\<close>; and the last character is mapped to \<open>L\<close>
  exactly when it does not occur earlier in the pattern.
\<close>

theorem build_shift_table_spec:
  assumes "pattern \<noteq> []"
  shows "\<exists>table. build_shift_table pattern = Inr table
     \<and> dom table = set pattern
     \<and> (\<forall>c v. table c = Some v \<longrightarrow> 1 \<le> v \<and> v \<le> length pattern)
     \<and> (\<forall>i. i + 1 < length pattern
            \<and> (\<forall>k. i < k \<and> k + 1 < length pattern \<longrightarrow> pattern ! k \<noteq> pattern ! i)
          \<longrightarrow> table (pattern ! i) = Some (length pattern - i - 1))
     \<and> (table (last pattern) = Some (length pattern)
          \<longleftrightarrow> last pattern \<notin> set (butlast pattern))"
proof -
  from assms obtain table where t: "build_shift_table pattern = Inr table"
    by (simp add: build_shift_table_def)
  have "\<forall>i. i + 1 < length pattern
            \<and> (\<forall>k. i < k \<and> k + 1 < length pattern \<longrightarrow> pattern ! k \<noteq> pattern ! i)
          \<longrightarrow> table (pattern ! i) = Some (length pattern - i - 1)"
  proof (intro allI impI)
    fix i
    assume h: "i + 1 < length pattern
            \<and> (\<forall>k. i < k \<and> k + 1 < length pattern \<longrightarrow> pattern ! k \<noteq> pattern ! i)"
    then have "pattern ! i \<in> set (butlast pattern)"
      by (metis Suc_eq_plus1 in_set_conv_nth length_butlast less_diff_conv nth_butlast)
    from shift_table_butlast [OF t this] obtain k where k: "k + 1 < length pattern"
      "pattern ! k = pattern ! i"
      "\<forall>k'. k < k' \<and> k' + 1 < length pattern \<longrightarrow> pattern ! k' \<noteq> pattern ! i"
      "table (pattern ! i) = Some (length pattern - k - 1)" by blast
    have "k = i"
    proof (rule ccontr)
      assume "k \<noteq> i"
      then consider "k < i" | "i < k" by linarith
      then show False
      proof cases
        case 1 with k(3) h show ?thesis by blast
      next
        case 2 with h k(1,2) show ?thesis by blast
      qed
    qed
    with k(4) show "table (pattern ! i) = Some (length pattern - i - 1)" by simp
  qed
  moreover have "table (last pattern) = Some (length pattern)
          \<longleftrightarrow> last pattern \<notin> set (butlast pattern)"
  proof (cases "last pattern \<in> set (butlast pattern)")
    case True
    from shift_table_butlast [OF t True] show ?thesis using True by auto
  next
    case False
    from shift_table_not_butlast [OF t False] show ?thesis using False by simp
  qed
  ultimately show ?thesis
    using t shift_table_dom [OF t] shift_table_bounds [OF t] by blast
qed

theorem build_shift_table_spec_witness:
  "\<exists>table. build_shift_table ''abcab'' = Inr table
     \<and> dom table = {CHR ''a'', CHR ''b'', CHR ''c''}
     \<and> table CHR ''a'' = Some 1 \<and> table CHR ''c'' = Some 2 \<and> table CHR ''b'' = Some 3"
proof -
  from build_shift_table_spec [of "''abcab''"] obtain table where
    t: "build_shift_table ''abcab'' = Inr table" "dom table = set ''abcab''" by blast
  from t(1) have "table CHR ''a'' = Some 1 \<and> table CHR ''c'' = Some 2 \<and> table CHR ''b'' = Some 3"
    by (auto simp: build_shift_table_def setdefault_def)
  with t show ?thesis by auto
qed

subsection \<open>Claim C2: the scan of a chunk finds exactly the substrings\<close>

lemma sublist_iff_occurs_at: "sublist pattern chunk \<longleftrightarrow> (\<exists>k. occurs_at chunk pattern k)"
proof
  assume "sublist pattern chunk"
  then obtain ps ss where "chunk = ps @ pattern @ ss" by (auto simp: sublist_def)
  then have "occurs_at chunk pattern (length ps)" by (simp add: occurs_at_def)
  then show "\<exists>k. occurs_at chunk pattern k" ..
next
  assume "\<exists>k. occurs_at chunk pattern k"
  then obtain k where k: "occurs_at chunk pattern k" ..
  have "chunk = take k chunk @ take (length pattern) (drop k chunk) @ drop (length pattern) (drop k chunk)"
    by (simp only: append_take_drop_id)
  with k have "chunk = take k chunk @ pattern @ drop (length pattern) (drop k chunk)"
    by (simp add: occurs_at_def)
  then show "sublist pattern chunk" unfolding sublist_def by blast
qed

lemma occurs_at_nth:
  "occurs_at chunk pattern k \<longleftrightarrow>
     k + length pattern \<le> length chunk \<and> (\<forall>j<length pattern. chunk ! (k + j) = pattern ! j)"
  by (auto simp: occurs_at_def list_eq_iff_nth_eq)

lemma compare_loop_in_range:
  "i + n \<le> length chunk \<Longrightarrow> n \<le> length pattern
     \<Longrightarrow> compare_loop chunk pattern i n = Inr (\<forall>j<n. chunk ! (i + j) = pattern ! j)"
  by (induction n) (auto simp: index_def less_Suc_eq)

lemma compare_loop_window:
  "i + length pattern \<le> length chunk
     \<Longrightarrow> compare_loop chunk pattern i (length pattern) = Inr (occurs_at chunk pattern i)"
  by (simp add: compare_loop_in_range occurs_at_nth)

lemma get_default_shift:
  assumes "build_shift_table pattern = Inr table"
  shows "1 \<le> get_default table ch (length pattern)
       \<and> get_default table ch (length pattern) \<le> length pattern
       \<and> (\<forall>k. k + 1 < length pattern \<and> pattern ! k = ch
             \<longrightarrow> get_default table ch (length pattern) \<le> length pattern - k - 1)"
proof (cases "ch \<in> set (butlast pattern)")
  case True
  from shift_table_butlast [OF assms True] obtain r where r: "r + 1 < length pattern"
    "pattern ! r = ch" "\<forall>k'. r < k' \<and> k' + 1 < length pattern \<longrightarrow> pattern ! k' \<noteq> ch"
    "table ch = Some (length pattern - r - 1)" by blast
  have g: "get_default table ch (length pattern) = length pattern - r - 1"
    using r(4) by (simp add: get_default_def)
  have "\<forall>k. k + 1 < length pattern \<and> pattern ! k = ch \<longrightarrow> k \<le> r"
  proof (intro allI impI)
    fix k assume k: "k + 1 < length pattern \<and> pattern ! k = ch"
    show "k \<le> r"
    proof (rule ccontr)
      assume "\<not> k \<le> r"
      then have "r < k" by simp
      with r(3) k show False by blast
    qed
  qed
  then have "\<forall>k. k + 1 < length pattern \<and> pattern ! k = ch
             \<longrightarrow> length pattern - r - 1 \<le> length pattern - k - 1"
    by (auto intro!: diff_le_mono diff_le_mono2)
  with g r(1) show ?thesis by auto
next
  case False
  from assms have ne: "pattern \<noteq> []" by (auto simp: build_shift_table_def)
  have g: "get_default table ch (length pattern) = length pattern"
    using shift_table_not_butlast [OF assms False] by (simp add: get_default_def)
  have "\<forall>k. k + 1 < length pattern \<longrightarrow> pattern ! k \<noteq> ch"
  proof (intro allI impI)
    fix k assume "k + 1 < length pattern"
    then have "k < length (butlast pattern)" by auto
    then have "butlast pattern ! k \<in> set (butlast pattern)" by (rule nth_mem)
    with \<open>k < length (butlast pattern)\<close> False show "pattern ! k \<noteq> ch"
      by (auto simp: nth_butlast)
  qed
  with g ne show ?thesis by (cases pattern) auto
qed

text \<open>No occurrence starts strictly between the window and the shifted window.\<close>

lemma shift_skips_no_occurrence:
  assumes t: "build_shift_table pattern = Inr table"
    and win: "i + length pattern \<le> length chunk"
    and d: "0 < d" "d < get_default table (chunk ! (i + length pattern - 1)) (length pattern)"
  shows "\<not> occurs_at chunk pattern (i + d)"
proof
  assume occ: "occurs_at chunk pattern (i + d)"
  let ?L = "length pattern"
  let ?ch = "chunk ! (i + ?L - 1)"
  from get_default_shift [OF t, of ?ch]
  have le: "get_default table ?ch ?L \<le> ?L"
    and safe: "\<forall>k. k + 1 < ?L \<and> pattern ! k = ?ch \<longrightarrow> get_default table ?ch ?L \<le> ?L - k - 1"
    by blast+
  from d le have dL: "d < ?L" by simp
  from occ have "\<forall>j<?L. chunk ! (i + d + j) = pattern ! j" by (simp add: occurs_at_nth)
  moreover from dL have "?L - 1 - d < ?L" by simp
  ultimately have "chunk ! (i + d + (?L - 1 - d)) = pattern ! (?L - 1 - d)" by blast
  moreover from dL have "i + d + (?L - 1 - d) = i + ?L - 1" by simp
  ultimately have "pattern ! (?L - 1 - d) = ?ch" by simp
  moreover from dL d(1) have "(?L - 1 - d) + 1 < ?L" by simp
  ultimately have "get_default table ?ch ?L \<le> ?L - (?L - 1 - d) - 1" using safe by blast
  also from dL have "?L - (?L - 1 - d) - 1 = d" by simp
  finally show False using d(2) by simp
qed

lemma scan_chunk_correct:
  assumes t: "build_shift_table pattern = Inr table"
  shows "\<forall>k<i. \<not> occurs_at chunk pattern k
     \<Longrightarrow> scan_chunk table pattern chunk i = Some (Inr (\<exists>k. occurs_at chunk pattern k))"
proof (induction "length chunk - i" arbitrary: i rule: less_induct)
  case less
  let ?L = "length pattern"
  from t have ne: "pattern \<noteq> []" by (auto simp: build_shift_table_def)
  then have L: "0 < ?L" by simp
  show ?case
  proof (cases "i + ?L \<le> length chunk")
    case False
    have "\<not> occurs_at chunk pattern k" for k
    proof (cases "k < i")
      case True with less.prems show ?thesis by simp
    next
      case False with \<open>\<not> i + ?L \<le> length chunk\<close> show ?thesis by (simp add: occurs_at_def)
    qed
    moreover from False have "\<not> int i \<le> int (length chunk) - int ?L" by linarith
    ultimately show ?thesis by (subst scan_chunk.simps) simp
  next
    case True
    then have guard: "int i \<le> int (length chunk) - int ?L" by linarith
    show ?thesis
    proof (cases "occurs_at chunk pattern i")
      case occ: True
      then have "\<exists>k. occurs_at chunk pattern k" ..
      with occ guard True show ?thesis
        by (subst scan_chunk.simps) (simp add: compare_loop_window)
    next
      case nocc: False
      let ?ch = "chunk ! (i + ?L - 1)"
      let ?s = "get_default table ?ch ?L"
      from True L have "i + ?L - 1 < length chunk" by linarith
      then have idx: "index chunk (i + ?L - 1) = Inr ?ch" by (simp add: index_def)
      from get_default_shift [OF t, of ?ch] have s: "1 \<le> ?s" by blast
      have "\<forall>k<i + ?s. \<not> occurs_at chunk pattern k"
      proof (intro allI impI)
        fix k assume k: "k < i + ?s"
        consider "k < i" | "k = i" | "i < k" by linarith
        then show "\<not> occurs_at chunk pattern k"
        proof cases
          case 1 with less.prems show ?thesis by simp
        next
          case 2 with nocc show ?thesis by simp
        next
          case 3
          with k have "0 < k - i" "k - i < ?s" by simp_all
          from shift_skips_no_occurrence [OF t True this] 3 show ?thesis by simp
        qed
      qed
      moreover from s True L have "length chunk - (i + ?s) < length chunk - i" by linarith
      ultimately have "scan_chunk table pattern chunk (i + ?s)
          = Some (Inr (\<exists>k. occurs_at chunk pattern k))"
        by (rule less.hyps [rotated])
      with nocc guard True idx show ?thesis
        by (subst scan_chunk.simps) (simp add: compare_loop_window)
    qed
  qed
qed

lemma scan_chunk_sublist:
  assumes "build_shift_table pattern = Inr table"
  shows "scan_chunk table pattern chunk 0 = Some (Inr (sublist pattern chunk))"
  using scan_chunk_correct [OF assms, of 0 chunk] by (simp add: sublist_iff_occurs_at)

text \<open>
  C2. With the table that \<open>build_shift_table\<close> returns for the pattern (so the
  pattern is not empty), the scan of a chunk from \<open>i = 0\<close> returns, raises nothing,
  and reports a match if and only if the pattern is a contiguous substring of the
  chunk.
\<close>

theorem scan_chunk_iff_substring:
  assumes "build_shift_table pattern = Inr shift_table"
  shows "scan_chunk shift_table pattern chunk 0 = Some (Inr (sublist pattern chunk))"
  using assms by (rule scan_chunk_sublist)

theorem scan_chunk_iff_substring_witness:
  "(\<exists>t. build_shift_table ''abcab'' = Inr t
      \<and> scan_chunk t ''abcab'' ''xxabcabcabyy'' 0 = Some (Inr True)
      \<and> scan_chunk t ''abcab'' ''abcaabcbabca'' 0 = Some (Inr False))
   \<and> sublist ''abcab'' ''xxabcabcabyy'' \<and> \<not> sublist ''abcab'' ''abcaabcbabca''"
proof -
  let ?p = "''abcab''"
  let ?t = "setdefault (enumerate_loop (length ?p) 0 (butlast ?p) Map.empty) (last ?p) (length ?p)"
  have t: "build_shift_table ''abcab'' = Inr ?t"
    by (rule build_shift_table_Inr) simp
  have a: "scan_chunk ?t ''abcab'' ''xxabcabcabyy'' 0 = Some (Inr True)"
    by (simp add: setdefault_def scan_chunk.simps index_def get_default_def)
  have b: "scan_chunk ?t ''abcab'' ''abcaabcbabca'' 0 = Some (Inr False)"
    by (simp add: setdefault_def scan_chunk.simps index_def get_default_def)
  from a b scan_chunk_iff_substring [OF t, of "''xxabcabcabyy''"]
    scan_chunk_iff_substring [OF t, of "''abcaabcbabca''"] t show ?thesis by simp
qed

subsection \<open>The loops of \<open>bm_search\<close>\<close>

lemma map_of_dd_extend:
  "map_of (dd_extend d k vs) k' =
     (if k' = k then Some (entries d k @ vs) else map_of d k')"
  by (induction d k vs rule: dd_extend.induct) (auto simp: entries_def)

lemma entries_dd_extend:
  "entries (dd_extend d k vs) k' = (if k' = k then entries d k @ vs else entries d k')"
  by (simp add: entries_def map_of_dd_extend)

lemma hits_Cons:
  "hits pattern (chunk # chunks) = (if sublist pattern chunk then Suc (hits pattern chunks) else hits pattern chunks)"
  by (simp add: hits_def)

lemma hits_Nil: "hits pattern [] = 0"
  by (simp add: hits_def)

lemma chunk_loop_result:
  assumes t: "build_shift_table pattern = Inr table"
  shows "\<exists>d'. chunk_loop table pattern file chunks d = Some (Inr d')
     \<and> (\<forall>k. map_of d' k =
           (if k = pattern \<and> 0 < hits pattern chunks
            then Some (entries d pattern @ replicate (hits pattern chunks) file)
            else map_of d k))"
proof (induction chunks arbitrary: d)
  case Nil
  show ?case by (simp add: hits_Nil)
next
  case (Cons chunk chunks)
  let ?d1 = "if sublist pattern chunk then dd_extend d pattern [file] else d"
  from Cons.IH [of ?d1] obtain d' where d': "chunk_loop table pattern file chunks ?d1 = Some (Inr d')"
    "\<forall>k. map_of d' k =
           (if k = pattern \<and> 0 < hits pattern chunks
            then Some (entries ?d1 pattern @ replicate (hits pattern chunks) file)
            else map_of ?d1 k)" by blast
  have step: "chunk_loop table pattern file (chunk # chunks) d = Some (Inr d')"
    using d'(1) by (simp add: scan_chunk_sublist [OF t])
  have "map_of d' k =
           (if k = pattern \<and> 0 < hits pattern (chunk # chunks)
            then Some (entries d pattern @ replicate (hits pattern (chunk # chunks)) file)
            else map_of d k)" for k
  proof (cases "sublist pattern chunk")
    case True
    then show ?thesis
      using d'(2) [rule_format, of k]
      by (auto simp: hits_Cons entries_dd_extend map_of_dd_extend replicate_app_Cons_same)
  next
    case False
    then show ?thesis
      using d'(2) [rule_format, of k] by (simp add: hits_Cons)
  qed
  with step show ?case by blast
qed

lemma pattern_loop_result:
  "pattern_loop fs file buffer_size patterns d = Some (Inr d')
     \<Longrightarrow> map_of d' k =
          (if 0 < count_list patterns k * hits k (file_chunks fs file buffer_size)
           then Some (entries d k
                  @ replicate (count_list patterns k * hits k (file_chunks fs file buffer_size)) file)
           else map_of d k)"
proof (induction patterns arbitrary: d)
  case Nil
  then show ?case by simp
next
  case (Cons p ps)
  let ?cs = "file_chunks fs file buffer_size"
  from Cons.prems obtain t where t: "build_shift_table p = Inr t"
    by (auto split: sum.splits)
  from Cons.prems t obtain cs where cs: "read_file_in_chunks fs file buffer_size = Inr cs"
    by (auto split: sum.splits)
  then have fc: "?cs = cs" by (simp add: file_chunks_def)
  from chunk_loop_result [OF t, of "file" cs d] obtain d1 where
    d1: "chunk_loop t p file cs d = Some (Inr d1)"
    "\<forall>k. map_of d1 k = (if k = p \<and> 0 < hits p cs
            then Some (entries d p @ replicate (hits p cs) file) else map_of d k)" by blast
  from Cons.prems t cs d1(1) have "pattern_loop fs file buffer_size ps d1 = Some (Inr d')"
    by simp
  from Cons.IH [OF this] have ih: "map_of d' k =
          (if 0 < count_list ps k * hits k ?cs
           then Some (entries d1 k @ replicate (count_list ps k * hits k ?cs) file)
           else map_of d1 k)" .
  have e1: "entries d1 k = (if k = p \<and> 0 < hits p cs
            then entries d p @ replicate (hits p cs) file else entries d k)"
    using d1(2) [rule_format, of k] by (auto simp: entries_def)
  show ?case
  proof (cases "k = p")
    case True
    show ?thesis
      using ih e1 d1(2) [rule_format, of k] True fc
      by (auto simp: replicate_add [symmetric] add.commute)
  next
    case False
    then show ?thesis
      using ih e1 d1(2) [rule_format, of k] fc by auto
  qed
qed

lemma pattern_loop_returns:
  "\<exists>x. pattern_loop fs file buffer_size patterns d = Some x"
proof (induction patterns arbitrary: d)
  case Nil
  show ?case by simp
next
  case (Cons p ps)
  show ?case
  proof (cases "build_shift_table p")
    case (Inl e)
    then show ?thesis by simp
  next
    case (Inr t)
    show ?thesis
    proof (cases "read_file_in_chunks fs file buffer_size")
      case (Inl e)
      with Inr show ?thesis by simp
    next
      case cs: (Inr cs)
      from chunk_loop_result [OF Inr, of "file" cs d] obtain d1 where
        "chunk_loop t p file cs d = Some (Inr d1)" by blast
      with Inr cs Cons.IH [of d1] show ?thesis by simp
    qed
  qed
qed

lemma pattern_loop_succeeds:
  assumes "fs file = Inr content" "[] \<notin> set patterns"
  shows "\<exists>d'. pattern_loop fs file buffer_size patterns d = Some (Inr d')"
  using assms(2)
proof (induction patterns arbitrary: d)
  case Nil
  show ?case by simp
next
  case (Cons p ps)
  then have "p \<noteq> []" by auto
  then obtain t where t: "build_shift_table p = Inr t" by (simp add: build_shift_table_def)
  from assms(1) have cs: "read_file_in_chunks fs file buffer_size = Inr (chunks_of buffer_size content)"
    by (simp add: read_file_in_chunks_def)
  from chunk_loop_result [OF t, of "file" "chunks_of buffer_size content" d] obtain d1 where
    "chunk_loop t p file (chunks_of buffer_size content) d = Some (Inr d1)" by blast
  with t cs Cons.IH [of d1] Cons.prems show ?case by simp
qed

text \<open>What makes \<open>bm_search\<close> raise: an empty pattern, or a file that cannot be read.\<close>

lemma pattern_loop_raises:
  assumes "pattern_loop fs file buffer_size patterns d = Some (Inl e)"
  shows "[] \<in> set patterns \<or> fs file = Inl e"
  using assms
proof (induction patterns arbitrary: d)
  case Nil
  then show ?case by simp
next
  case (Cons p ps)
  show ?case
  proof (cases "p = []")
    case True
    then show ?thesis by simp
  next
    case False
    then obtain t where t: "build_shift_table p = Inr t" by (simp add: build_shift_table_def)
    show ?thesis
    proof (cases "fs file")
      case (Inl e')
      with Cons.prems t show ?thesis by (simp add: read_file_in_chunks_def)
    next
      case (Inr content)
      then have cs: "read_file_in_chunks fs file buffer_size = Inr (chunks_of buffer_size content)"
        by (simp add: read_file_in_chunks_def)
      from chunk_loop_result [OF t, of "file" "chunks_of buffer_size content" d] obtain d1 where
        "chunk_loop t p file (chunks_of buffer_size content) d = Some (Inr d1)" by blast
      with Cons.prems t cs have "pattern_loop fs file buffer_size ps d1 = Some (Inl e)" by simp
      from Cons.IH [OF this] show ?thesis by auto
    qed
  qed
qed

subsection \<open>Claims C9 and C10: what a result of \<open>bm_search\<close> holds\<close>

lemma bm_search_lookup:
  assumes "bm_search fs file patterns buffer_size = Some (Inr r)"
  shows "map_of r k =
          (if 0 < count_list patterns k * hits k (file_chunks fs file buffer_size)
           then Some (replicate (count_list patterns k * hits k (file_chunks fs file buffer_size)) file)
           else None)"
  using pattern_loop_result [of fs "file" buffer_size patterns "[]" r k] assms
  by (simp add: bm_search_def entries_def)

lemma chunks_of_length:
  "0 \<le> buffer_size \<Longrightarrow> c \<in> set (chunks_of buffer_size rest) \<Longrightarrow> length c \<le> nat buffer_size"
proof (induction buffer_size rest rule: chunks_of.induct)
  case (1 buffer_size rest)
  show ?case
  proof (cases "fst (read buffer_size rest) = []")
    case True
    with "1.prems" show ?thesis by (subst (asm) chunks_of.simps) simp
  next
    case False
    with "1.prems"(2) have "c = fst (read buffer_size rest)
        \<or> c \<in> set (chunks_of buffer_size (snd (read buffer_size rest)))"
      by (subst (asm) chunks_of.simps) simp
    then show ?thesis
    proof
      assume "c = fst (read buffer_size rest)"
      with "1.prems"(1) show ?thesis by (simp add: read_def)
    next
      assume "c \<in> set (chunks_of buffer_size (snd (read buffer_size rest)))"
      with "1.IH" [OF False "1.prems"(1)] show ?thesis .
    qed
  qed
qed

lemma sublist_length: "sublist xs ys \<Longrightarrow> length xs \<le> length ys"
  by (auto simp: sublist_def)

lemma hits_long_pattern:
  assumes "0 \<le> buffer_size" "buffer_size < int (length pattern)"
  shows "hits pattern (file_chunks fs file buffer_size) = 0"
proof -
  have "\<not> sublist pattern c" if "c \<in> set (file_chunks fs file buffer_size)" for c
  proof
    assume "sublist pattern c"
    then have "length pattern \<le> length c" by (rule sublist_length)
    moreover from that obtain content where "c \<in> set (chunks_of buffer_size content)"
      by (auto simp: file_chunks_def read_file_in_chunks_def split: sum.splits)
    with assms(1) have "length c \<le> nat buffer_size" by (rule chunks_of_length)
    ultimately show False using assms by linarith
  qed
  then show ?thesis by (simp add: hits_def)
qed

text \<open>
  C9. With a buffer size \<open>0 \<le> B < len(P)\<close>, no result of \<open>bm_search\<close> has \<open>P\<close> among
  its keys, whatever the file holds; and when the file can be read and no pattern of
  the list is empty, \<open>bm_search\<close> does return such a result, without an error.
\<close>

theorem long_pattern_never_reported:
  assumes "0 \<le> buffer_size" "buffer_size < int (length pattern)"
  shows "(\<forall>r. bm_search fs file patterns buffer_size = Some (Inr r) \<longrightarrow> map_of r pattern = None)
       \<and> (fs file = Inr content \<and> [] \<notin> set patterns
            \<longrightarrow> (\<exists>r. bm_search fs file patterns buffer_size = Some (Inr r)
                     \<and> map_of r pattern = None))"
proof -
  have a: "map_of r pattern = None"
    if "bm_search fs file patterns buffer_size = Some (Inr r)" for r
    using bm_search_lookup [OF that, of pattern] hits_long_pattern [OF assms, of fs "file"]
    by simp
  have "\<exists>r. bm_search fs file patterns buffer_size = Some (Inr r)"
    if "fs file = Inr content \<and> [] \<notin> set patterns"
    using pattern_loop_succeeds [of fs "file" content patterns buffer_size "[]"] that
    by (simp add: bm_search_def)
  with a show ?thesis by blast
qed

theorem long_pattern_never_reported_witness:
  "(0::int) \<le> 4 \<and> 4 < int (length ''hello'') \<and> sublist ''hello'' ''xxhelloxx''
     \<and> (\<exists>r. bm_search (\<lambda>p. Inr ''xxhelloxx'') ''a.txt'' [''hello''] 4 = Some (Inr r)
           \<and> map_of r ''hello'' = None)"
proof -
  have "sublist ''hello'' (''xx'' @ ''hello'' @ ''xx'')" by (rule sublist_appendI)
  then have "sublist ''hello'' ''xxhelloxx''" by simp
  then show ?thesis
    using long_pattern_never_reported [of 4 "''hello''" "\<lambda>p. Inr ''xxhelloxx''" "''a.txt''"
        "[''hello'']" "''xxhelloxx''"]
    by simp
qed

text \<open>
  C10. In a result of \<open>bm_search\<close>, the list of a keyword holds nothing but the
  file's path, once for every chunk that contains the keyword (and for every time the
  keyword stands in the pattern list, the file being read again for each): so at most
  once per chunk read.
\<close>

theorem one_entry_per_chunk:
  assumes "bm_search fs file patterns buffer_size = Some (Inr r)" "map_of r k = Some l"
  shows "l = replicate (length l) file
       \<and> length l = count_list patterns k * hits k (file_chunks fs file buffer_size)
       \<and> length l \<le> count_list patterns k * length (file_chunks fs file buffer_size)"
proof -
  let ?n = "count_list patterns k * hits k (file_chunks fs file buffer_size)"
  from bm_search_lookup [OF assms(1), of k] assms(2) have l: "l = replicate ?n file"
    by (simp split: if_splits)
  have "hits k (file_chunks fs file buffer_size) \<le> length (file_chunks fs file buffer_size)"
    by (simp add: hits_def)
  then have "?n \<le> count_list patterns k * length (file_chunks fs file buffer_size)"
    by simp
  with l show ?thesis by simp
qed

lemma bm_search_abab:
  "bm_search (\<lambda>p. Inr ''abab'') ''a.txt'' [''ab''] 2 = Some (Inr [(''ab'', [''a.txt'', ''a.txt''])])"
  by (simp add: bm_search_def read_file_in_chunks_def chunks_of.simps read_def
      build_shift_table_def setdefault_def scan_chunk.simps index_def get_default_def)

theorem one_entry_per_chunk_witness:
  "bm_search (\<lambda>p. Inr ''abab'') ''a.txt'' [''ab''] 2 = Some (Inr [(''ab'', [''a.txt'', ''a.txt''])])
   \<and> [''a.txt'', ''a.txt''] = replicate (length [''a.txt'', ''a.txt'']) ''a.txt''
   \<and> length [''a.txt'', ''a.txt'']
        = count_list [''ab''] ''ab'' * hits ''ab'' (file_chunks (\<lambda>p. Inr ''abab'') ''a.txt'' 2)
   \<and> length [''a.txt'', ''a.txt'']
        \<le> count_list [''ab''] ''ab'' * length (file_chunks (\<lambda>p. Inr ''abab'') ''a.txt'' 2)"
proof -
  have m: "map_of [(''ab'', [''a.txt'', ''a.txt''])] ''ab'' = Some [''a.txt'', ''a.txt'']"
    by simp
  from one_entry_per_chunk [OF bm_search_abab m] bm_search_abab show ?thesis
    by blast
qed

subsection \<open>Claims C1 and C3: chunk boundaries and repeated entries\<close>

text \<open>
  C1 fails on the code. The text \<open>xxxxxxhelloxxxxx\<close> holds \<open>hello\<close> at offset 6.
  With a buffer of 8 the chunks are \<open>xxxxxxhe\<close> and \<open>lloxxxxx\<close> and the keyword is
  not reported; with a buffer of 16 the single chunk is the whole text and it is.
\<close>

theorem boundary_occurrence_missed:
  "file_chunks (\<lambda>p. Inr ''xxxxxxhelloxxxxx'') ''a.txt'' 8 = [''xxxxxxhe'', ''lloxxxxx'']
   \<and> bm_search (\<lambda>p. Inr ''xxxxxxhelloxxxxx'') ''a.txt'' [''hello''] 8 = Some (Inr [])
   \<and> bm_search (\<lambda>p. Inr ''xxxxxxhelloxxxxx'') ''a.txt'' [''hello''] 16
       = Some (Inr [(''hello'', [''a.txt''])])"
  by (simp add: bm_search_def file_chunks_def read_file_in_chunks_def chunks_of.simps read_def
      build_shift_table_def setdefault_def scan_chunk.simps index_def get_default_def)

text \<open>
  C3 fails on the code. The text \<open>abab\<close> read with a buffer of 2 gives the chunks
  \<open>ab\<close> and \<open>ab\<close>; the keyword \<open>ab\<close> is found in both, and the worker's result
  lists the one file twice.
\<close>

theorem file_listed_once_per_matching_chunk:
  "search_keywords_in_files (\<lambda>p. Inr ''abab'') [''a.txt''] [''ab''] 2
     = Some [(''ab'', [''a.txt'', ''a.txt''])]"
  by (simp add: search_keywords_in_files_def bm_search_def read_file_in_chunks_def
      chunks_of.simps read_def build_shift_table_def setdefault_def scan_chunk.simps
      index_def get_default_def)

subsection \<open>Claim C5: the partition of the file list\<close>

lemma py_slice_nat:
  assumes "s \<le> e" "e \<le> length xs"
  shows "py_slice xs (int s) (int e) = take (e - s) (drop s xs)"
proof -
  have "slice_bound (int s) (int (length xs)) = int s" "slice_bound (int e) (int (length xs)) = int e"
    using assms by (simp_all add: slice_bound_def)
  moreover have "nat (int e - int s) = e - s" by simp
  ultimately show ?thesis by (simp add: py_slice_def Let_def)
qed

lemma process_files_slice:
  assumes "1 \<le> n" "i < nat n"
  shows "process_files files n (int i) =
     (if i + 1 < nat n then take (length files div nat n) (drop (i * (length files div nat n)) files)
      else drop (i * (length files div nat n)) files)"
proof -
  let ?c = "length files div nat n"
  from assms(1) have cs: "int (length files) div n = int ?c"
    by (simp add: zdiv_int)
  have bound: "nat n * ?c \<le> length files" by simp
  show ?thesis
  proof (cases "i + 1 < nat n")
    case True
    then have ne: "int i \<noteq> n - 1" by linarith
    from True have "(i + 1) * ?c \<le> nat n * ?c" by (intro mult_le_mono1) simp
    with bound have e: "(i + 1) * ?c \<le> length files" by linarith
    have s: "i * ?c \<le> (i + 1) * ?c" by simp
    have "process_files files n (int i) = py_slice files (int (i * ?c)) (int ((i + 1) * ?c))"
      using ne cs by (simp add: process_files_def Let_def algebra_simps)
    also have "\<dots> = take ((i + 1) * ?c - i * ?c) (drop (i * ?c) files)"
      using s e by (rule py_slice_nat)
    also have "(i + 1) * ?c - i * ?c = ?c" by simp
    finally show ?thesis using True by simp
  next
    case False
    with assms(2) have eq: "int i = n - 1" by linarith
    from assms(2) have "i * ?c \<le> nat n * ?c" by (intro mult_le_mono1) simp
    with bound have s: "i * ?c \<le> length files" by linarith
    have "process_files files n (int i) = py_slice files (int (i * ?c)) (int (length files))"
      using eq cs by (simp add: process_files_def Let_def)
    also have "\<dots> = take (length files - i * ?c) (drop (i * ?c) files)"
      using s by (intro py_slice_nat) simp_all
    also have "\<dots> = drop (i * ?c) files" by simp
    finally show ?thesis using False by simp
  qed
qed

lemma concat_equal_slices:
  "m * c \<le> length xs \<Longrightarrow> concat (map (\<lambda>i. take c (drop (i * c) xs)) [0..<m]) = take (m * c) xs"
proof (induction m)
  case 0
  show ?case by simp
next
  case (Suc m)
  then have "concat (map (\<lambda>i. take c (drop (i * c) xs)) [0..<m]) = take (m * c) xs" by simp
  then have "concat (map (\<lambda>i. take c (drop (i * c) xs)) [0..<Suc m])
      = take (m * c) xs @ take c (drop (m * c) xs)" by simp
  also have "\<dots> = take (m * c + c) xs" by (simp add: take_add)
  finally show ?case by (simp add: add.commute)
qed

text \<open>
  C5. For every file list and every \<open>num_processes \<ge> 1\<close> (also above the number of
  files), the coordinator makes exactly \<open>num_processes\<close> slices; with
  \<open>c = len(files) // num_processes\<close>, slice \<open>i\<close> is the \<open>c\<close> files from offset
  \<open>i * c\<close>, except the last, which is everything from offset \<open>i * c\<close>; and the slices
  concatenated in order are the file list, so every file is in exactly one slice.
\<close>

theorem partition_covers_files:
  assumes "1 \<le> num_processes"
  shows "length (partition_files files num_processes) = nat num_processes
       \<and> concat (partition_files files num_processes) = files
       \<and> (\<forall>i. i < nat num_processes \<longrightarrow>
             partition_files files num_processes ! i =
               (if i + 1 < nat num_processes
                then take (length files div nat num_processes)
                       (drop (i * (length files div nat num_processes)) files)
                else drop (i * (length files div nat num_processes)) files))"
proof -
  let ?n = "nat num_processes"
  let ?c = "length files div ?n"
  let ?slice = "\<lambda>i. if i + 1 < ?n then take ?c (drop (i * ?c) files) else drop (i * ?c) files"
  have pf: "partition_files files num_processes = map ?slice [0..<?n]"
    using process_files_slice [OF assms, of _ files]
    by (simp add: partition_files_def py_range_def)
  from assms obtain m where m: "?n = Suc m" by (cases ?n) auto
  have "m * ?c \<le> ?n * ?c" using m by simp
  also have "\<dots> \<le> length files" by simp
  finally have mc: "m * ?c \<le> length files" .
  have "map ?slice [0..<?n] = map (\<lambda>i. take ?c (drop (i * ?c) files)) [0..<m] @ [drop (m * ?c) files]"
    using m by simp
  then have "concat (map ?slice [0..<?n]) = take (m * ?c) files @ drop (m * ?c) files"
    using concat_equal_slices [OF mc] by simp
  then have "concat (partition_files files num_processes) = files"
    using pf by simp
  moreover have "length (partition_files files num_processes) = ?n"
    using pf by simp
  moreover have "\<forall>i. i < ?n \<longrightarrow> partition_files files num_processes ! i = ?slice i"
    using pf by simp
  ultimately show ?thesis by blast
qed

theorem partition_covers_files_witness:
  "(1::int) \<le> 3
   \<and> partition_files [''a'', ''b'', ''c'', ''d'', ''e'', ''f'', ''g''] 3
       = [[''a'', ''b''], [''c'', ''d''], [''e'', ''f'', ''g'']]
   \<and> length (partition_files [''a'', ''b'', ''c'', ''d'', ''e'', ''f'', ''g''] 3) = nat 3
   \<and> concat (partition_files [''a'', ''b'', ''c'', ''d'', ''e'', ''f'', ''g''] 3)
       = [''a'', ''b'', ''c'', ''d'', ''e'', ''f'', ''g'']"
proof -
  have e: "partition_files [''a'', ''b'', ''c'', ''d'', ''e'', ''f'', ''g''] 3
       = [[''a'', ''b''], [''c'', ''d''], [''e'', ''f'', ''g'']]"
    by code_simp
  from partition_covers_files [of 3 "[''a'', ''b'', ''c'', ''d'', ''e'', ''f'', ''g'']"] e
  show ?thesis by simp
qed

lemma more_workers_than_files:
  "partition_files [''a'', ''b''] 4 = [[], [], [], [''a'', ''b'']]"
  by code_simp

subsection \<open>Claim C6: a file that cannot be read\<close>

lemma all_paths_dd_extend: "all_paths (dd_extend d k vs) = all_paths d \<union> set vs"
  by (induction d k vs rule: dd_extend.induct) (auto simp: all_paths_def)

lemma all_paths_Nil: "all_paths [] = {}"
  by (simp add: all_paths_def)

lemma all_paths_Cons: "all_paths ((k, l) # d) = set l \<union> all_paths d"
  by (simp add: all_paths_def)

lemma all_paths_merge_items: "all_paths (merge_items d items) = all_paths d \<union> all_paths items"
proof (induction d items rule: merge_items.induct)
  case (1 results)
  show ?case by (simp add: all_paths_Nil)
next
  case (2 results keyword paths items)
  then show ?case by (auto simp: all_paths_dd_extend all_paths_Cons)
qed

lemma map_of_all_paths: "map_of d k = Some l \<Longrightarrow> set l \<subseteq> all_paths d"
  by (auto simp: all_paths_def dest!: map_of_SomeD)

lemma chunk_loop_paths:
  "chunk_loop table pattern file chunks d = Some (Inr d') \<Longrightarrow> all_paths d' \<subseteq> all_paths d \<union> {file}"
proof (induction chunks arbitrary: d)
  case Nil
  then show ?case by auto
next
  case (Cons chunk chunks)
  from Cons.prems obtain found where
    "chunk_loop table pattern file chunks
       (if found then dd_extend d pattern [file] else d) = Some (Inr d')"
    by (auto split: option.splits sum.splits)
  from Cons.IH [OF this] show ?case
    by (auto simp: all_paths_dd_extend split: if_splits)
qed

lemma pattern_loop_paths:
  "pattern_loop fs file buffer_size patterns d = Some (Inr d')
     \<Longrightarrow> all_paths d' \<subseteq> all_paths d \<union> {file}"
proof (induction patterns arbitrary: d)
  case Nil
  then show ?case by auto
next
  case (Cons p ps)
  from Cons.prems obtain t cs d1 where
    "chunk_loop t p file cs d = Some (Inr d1)"
    "pattern_loop fs file buffer_size ps d1 = Some (Inr d')"
    by (auto split: option.splits sum.splits)
  from chunk_loop_paths [OF this(1)] Cons.IH [OF this(2)] show ?case by blast
qed

lemma bm_search_paths:
  "bm_search fs file patterns buffer_size = Some (Inr r) \<Longrightarrow> all_paths r \<subseteq> {file}"
  using pattern_loop_paths [of fs "file" buffer_size patterns "[]" r]
  by (simp add: bm_search_def all_paths_Nil)

lemma bm_search_unreadable:
  assumes "fs file = Inl e"
  shows "bm_search fs file patterns buffer_size = Some (Inr [])
       \<or> (\<exists>e'. bm_search fs file patterns buffer_size = Some (Inl e'))"
proof (cases patterns)
  case Nil
  then show ?thesis by (simp add: bm_search_def)
next
  case (Cons p ps)
  with assms show ?thesis
    by (cases "build_shift_table p") (simp_all add: bm_search_def read_file_in_chunks_def)
qed

lemma files_loop_unreadable:
  assumes "fs file_path = Inl e"
  shows "files_loop fs keywords buffer_size (file_path # rest) results
       = files_loop fs keywords buffer_size rest results"
  using bm_search_unreadable [of fs file_path e "keywords" buffer_size] assms by auto

lemma files_loop_append:
  "files_loop fs keywords buffer_size (xs @ ys) results =
     (case files_loop fs keywords buffer_size xs results of
        None \<Rightarrow> None
      | Some results' \<Rightarrow> files_loop fs keywords buffer_size ys results')"
  by (induction xs arbitrary: results) (auto split: option.splits sum.splits)

lemma bm_search_returns: "\<exists>x. bm_search fs file patterns buffer_size = Some x"
  using pattern_loop_returns [of fs "file" buffer_size patterns "[]"] by (simp add: bm_search_def)

lemma files_loop_returns: "\<exists>r. files_loop fs keywords buffer_size files results = Some r"
proof (induction files arbitrary: results)
  case Nil
  show ?case by simp
next
  case (Cons f files)
  from bm_search_returns [of fs f "keywords" buffer_size] obtain x where
    "bm_search fs f keywords buffer_size = Some x" by blast
  with Cons.IH show ?case by (cases x) auto
qed

lemma files_loop_paths:
  "files_loop fs keywords buffer_size files results = Some r
     \<Longrightarrow> all_paths r \<subseteq> all_paths results \<union> {f \<in> set files. \<exists>content. fs f = Inr content}"
proof (induction files arbitrary: results)
  case Nil
  then show ?case by simp
next
  case (Cons f files)
  show ?case
  proof (cases "fs f")
    case (Inl e)
    from Cons.prems have "files_loop fs keywords buffer_size files results = Some r"
      by (simp only: files_loop_unreadable [of fs f e, OF Inl])
    from Cons.IH [OF this] show ?thesis by auto
  next
    case (Inr content)
    from bm_search_returns [of fs f "keywords" buffer_size] obtain x where
      x: "bm_search fs f keywords buffer_size = Some x" by blast
    show ?thesis
    proof (cases x)
      case (Inl e)
      with x Cons.prems have "files_loop fs keywords buffer_size files results = Some r" by simp
      from Cons.IH [OF this] show ?thesis by auto
    next
      case sr: (Inr search_results)
      with x Cons.prems have
        "files_loop fs keywords buffer_size files (merge_items results search_results) = Some r"
        by simp
      from Cons.IH [OF this] bm_search_paths [of fs f "keywords" buffer_size search_results] x sr Inr
      show ?thesis by (auto simp: all_paths_merge_items)
    qed
  qed
qed

lemma run_processes_returns: "\<exists>queue. run_processes fs keywords buffer_size slices = Some queue"
proof (induction slices)
  case Nil
  show ?case by simp
next
  case (Cons s slices)
  from files_loop_returns [of fs "keywords" buffer_size s "[]"] obtain r where
    "search_keywords_in_files fs s keywords buffer_size = Some r"
    by (auto simp: search_keywords_in_files_def)
  with Cons.IH show ?case by auto
qed

text \<open>
  C6. When a file of the worker's list cannot be opened or read, the worker's result
  is the one it gives for the list without that file: the error is caught, the other
  files are searched, and the result is put on the queue. No list of the result
  holds the path of that file. The coordinator returns normally as well (for a count
  of processes other than zero).
\<close>

theorem unreadable_file_is_skipped:
  assumes "fs file_path = Inl e"
  shows "search_keywords_in_files fs (before @ file_path # after) keywords buffer_size
           = search_keywords_in_files fs (before @ after) keywords buffer_size
       \<and> (\<exists>results. search_keywords_in_files fs (before @ file_path # after) keywords buffer_size
               = Some results
             \<and> (\<forall>k l. map_of results k = Some l \<longrightarrow> file_path \<notin> set l))
       \<and> (num_processes \<noteq> 0 \<longrightarrow>
            (\<exists>run. multiprocessing_search fs (before @ file_path # after) keywords
                      num_processes buffer_size = Some (Inr run)))"
proof -
  let ?files = "before @ file_path # after"
  have step: "files_loop fs keywords buffer_size (file_path # after) d
      = files_loop fs keywords buffer_size after d" for d
    using assms by (rule files_loop_unreadable)
  have skip: "search_keywords_in_files fs ?files keywords buffer_size
           = search_keywords_in_files fs (before @ after) keywords buffer_size"
    by (simp only: search_keywords_in_files_def files_loop_append step cong: option.case_cong)
  from files_loop_returns [of fs "keywords" buffer_size ?files "[]"] obtain results where
    r: "search_keywords_in_files fs ?files keywords buffer_size = Some results"
    by (auto simp: search_keywords_in_files_def)
  then have "all_paths results \<subseteq> {f \<in> set ?files. \<exists>content. fs f = Inr content}"
    using files_loop_paths [of fs "keywords" buffer_size ?files "[]" results]
    by (simp add: search_keywords_in_files_def all_paths_Nil)
  with assms have "file_path \<notin> all_paths results" by auto
  then have "\<forall>k l. map_of results k = Some l \<longrightarrow> file_path \<notin> set l"
    using map_of_all_paths by fastforce
  moreover have "\<exists>run. multiprocessing_search fs ?files keywords num_processes buffer_size
      = Some (Inr run)" if "num_processes \<noteq> 0"
    using that run_processes_returns [of fs "keywords" buffer_size "partition_files ?files num_processes"]
    by (auto simp: multiprocessing_search_def Let_def)
  ultimately show ?thesis using skip r by blast
qed

text \<open>Facts for evaluating the functions on concrete inputs.\<close>

lemma scenario_fs_simps:
  "scenario_fs ''a.txt'' = Inr ''the book is here''"
  "scenario_fs ''b.txt'' = Inr ''summer is great''"
  "scenario_fs ''missing.txt'' = Inl FileNotFoundError"
  by (simp_all add: scenario_fs_def)

lemmas evaluation =
  search_keywords_in_files_def bm_search_def read_file_in_chunks_def
  chunks_of.simps read_def build_shift_table_def setdefault_def scan_chunk.simps
  index_def get_default_def

lemmas partition_evaluation =
  multiprocessing_search_def partition_files_def process_files_def py_range_def
  py_slice_def slice_bound_def

theorem unreadable_file_is_skipped_witness:
  "scenario_fs ''missing.txt'' = Inl FileNotFoundError
   \<and> search_keywords_in_files scenario_fs [''a.txt'', ''missing.txt'', ''b.txt'']
        [''book'', ''summer'', ''life''] 4096
       = Some [(''book'', [''a.txt'']), (''summer'', [''b.txt''])]
   \<and> search_keywords_in_files scenario_fs [''a.txt'', ''missing.txt'', ''b.txt'']
        [''book'', ''summer'', ''life''] 4096
       = search_keywords_in_files scenario_fs [''a.txt'', ''b.txt'']
           [''book'', ''summer'', ''life''] 4096
   \<and> (\<exists>run. multiprocessing_search scenario_fs [''a.txt'', ''missing.txt'', ''b.txt'']
                [''book'', ''summer'', ''life''] 2 4096 = Some (Inr run))"
proof -
  have m: "scenario_fs ''missing.txt'' = Inl FileNotFoundError"
    by (rule scenario_fs_simps)
  have r: "search_keywords_in_files scenario_fs [''a.txt'', ''missing.txt'', ''b.txt'']
        [''book'', ''summer'', ''life''] 4096
       = Some [(''book'', [''a.txt'']), (''summer'', [''b.txt''])]"
    by (simp add: scenario_fs_simps evaluation)
  from unreadable_file_is_skipped [of scenario_fs "''missing.txt''" FileNotFoundError
      "[''a.txt'']" "[''b.txt'']" "[''book'', ''summer'', ''life'']" 4096 2] m r
  show ?thesis by simp
qed

subsection \<open>Claim C7: the empty file list\<close>

lemma py_slice_Nil: "py_slice [] start end = []"
  by (simp add: py_slice_def Let_def)

lemma partition_files_Nil: "partition_files [] num_processes = replicate (nat num_processes) []"
proof -
  have "map (process_files [] num_processes) xs = replicate (length xs) []" for xs
    by (induction xs) (simp_all add: process_files_def py_slice_Nil Let_def)
  then have "map (process_files [] num_processes) (py_range num_processes)
      = replicate (length (py_range num_processes)) []" .
  moreover have "length (py_range num_processes) = nat num_processes"
    by (simp add: py_range_def)
  ultimately show ?thesis
    by (simp only: partition_files_def)
qed

lemma run_processes_empty_slices:
  "run_processes fs keywords buffer_size (replicate m []) = Some (replicate m [])"
  by (induction m) (simp_all add: search_keywords_in_files_def)

lemma drain_queue_empty_results: "drain_queue (replicate m []) d = d"
  by (induction m) simp_all

text \<open>
  C7 as the code has it. For the empty file list and a count of processes other than
  zero, the coordinator returns the empty dictionary, after starting one process per
  slice: \<open>num_processes\<close> processes (none for a negative count), each with an empty
  list of files. A count of zero raises \<open>ZeroDivisionError\<close>.
\<close>

theorem empty_file_list_run:
  "multiprocessing_search fs [] keywords num_processes buffer_size =
     (if num_processes = 0 then Some (Inl ZeroDivisionError)
      else Some (Inr \<lparr>processes = replicate (nat num_processes) [], final_results = []\<rparr>))"
  by (simp add: multiprocessing_search_def partition_files_Nil run_processes_empty_slices
      drain_queue_empty_results)

text \<open>
  C7 fails on the code as stated: with two processes asked for, the empty file list
  still starts two workers.
\<close>

theorem empty_file_list_starts_workers:
  "multiprocessing_search scenario_fs [] [''book'', ''summer'', ''life''] 2 4096
     = Some (Inr \<lparr>processes = [[], []], final_results = []\<rparr>)
   \<and> \<not> (\<exists>run. multiprocessing_search scenario_fs [] [''book'', ''summer'', ''life''] 2 4096
                = Some (Inr run) \<and> final_results run = [] \<and> processes run = [])"
proof -
  have "multiprocessing_search scenario_fs [] [''book'', ''summer'', ''life''] 2 4096
     = Some (Inr \<lparr>processes = replicate (nat 2) [], final_results = []\<rparr>)"
    by (simp add: multiprocessing_search_def partition_files_Nil run_processes_empty_slices
      drain_queue_empty_results)
  moreover have "replicate (nat 2) ([] :: string list) = [[], []]"
    by (simp add: numeral_2_eq_2)
  ultimately have "multiprocessing_search scenario_fs [] [''book'', ''summer'', ''life''] 2 4096
     = Some (Inr \<lparr>processes = [[], []], final_results = []\<rparr>)"
    by (simp only:)
  then show ?thesis by simp
qed

subsection \<open>Claim C8: the empty pattern\<close>

lemma pattern_loop_empty_pattern:
  "[] \<in> set patterns \<Longrightarrow> \<exists>e. pattern_loop fs file buffer_size patterns d = Some (Inl e)"
proof (induction patterns arbitrary: d)
  case Nil
  then show ?case by simp
next
  case (Cons p ps)
  show ?case
  proof (cases "p = []")
    case True
    then show ?thesis by (simp add: build_shift_table_def)
  next
    case False
    with Cons.prems have ps: "[] \<in> set ps" by auto
    from False obtain t where t: "build_shift_table p = Inr t"
      by (simp add: build_shift_table_def)
    show ?thesis
    proof (cases "read_file_in_chunks fs file buffer_size")
      case (Inl e)
      with t show ?thesis by simp
    next
      case (Inr cs)
      from chunk_loop_result [OF t, of "file" cs d] obtain d1 where
        "chunk_loop t p file cs d = Some (Inr d1)" by blast
      with t Inr Cons.IH [OF ps, of d1] show ?thesis by simp
    qed
  qed
qed

lemma files_loop_empty_keyword:
  assumes "[] \<in> set keywords"
  shows "files_loop fs keywords buffer_size files results = Some results"
proof (induction files)
  case Nil
  show ?case by simp
next
  case (Cons f files)
  from pattern_loop_empty_pattern [OF assms, of fs f buffer_size "[]"] obtain e where
    "bm_search fs f keywords buffer_size = Some (Inl e)" by (auto simp: bm_search_def)
  with Cons.IH show ?case by simp
qed

text \<open>
  C8 as the code has it. \<open>build_shift_table\<close> raises for the empty pattern and for no
  other (the exception is the \<open>IndexError\<close> of \<open>pattern[-1]\<close>); with the table of a
  non-empty pattern the scan of a chunk returns and raises nothing; \<open>bm_search\<close>
  raises only for an empty pattern or for a file that cannot be read. An empty
  keyword makes \<open>bm_search\<close> raise for every file, and the worker catches that like
  any other exception: it returns normally, with an empty result.
\<close>

theorem empty_pattern_error_is_absorbed:
  "(build_shift_table pattern = Inl IndexError \<longleftrightarrow> pattern = [])
   \<and> (pattern \<noteq> [] \<longrightarrow> (\<exists>table found. build_shift_table pattern = Inr table
          \<and> scan_chunk table pattern chunk 0 = Some (Inr found)))
   \<and> (\<forall>e. bm_search fs file keywords buffer_size = Some (Inl e)
          \<longrightarrow> [] \<in> set keywords \<or> fs file = Inl e)
   \<and> ([] \<in> set keywords \<longrightarrow>
         (\<exists>e. bm_search fs file keywords buffer_size = Some (Inl e))
         \<and> search_keywords_in_files fs files keywords buffer_size = Some [])"
proof -
  have a: "build_shift_table pattern = Inl IndexError \<longleftrightarrow> pattern = []"
    by (simp add: build_shift_table_def)
  have b: "\<exists>table found. build_shift_table pattern = Inr table
          \<and> scan_chunk table pattern chunk 0 = Some (Inr found)" if "pattern \<noteq> []"
  proof -
    from that obtain table where t: "build_shift_table pattern = Inr table"
      by (simp add: build_shift_table_def)
    from scan_chunk_correct [OF t, of 0 chunk] t show ?thesis by auto
  qed
  have c: "[] \<in> set keywords \<or> fs file = Inl e"
    if "bm_search fs file keywords buffer_size = Some (Inl e)" for e
    using that pattern_loop_raises [of fs "file" buffer_size "keywords" "[]" e]
    by (simp add: bm_search_def)
  have d: "(\<exists>e. bm_search fs file keywords buffer_size = Some (Inl e))
         \<and> search_keywords_in_files fs files keywords buffer_size = Some []"
    if "[] \<in> set keywords"
    using pattern_loop_empty_pattern [OF that, of fs "file" buffer_size "[]"]
      files_loop_empty_keyword [OF that, of fs buffer_size files "[]"]
    by (simp add: bm_search_def search_keywords_in_files_def)
  from a b c d show ?thesis by blast
qed

theorem empty_pattern_error_is_absorbed_witness:
  "build_shift_table ([] :: string) = Inl IndexError
   \<and> (\<exists>table found. build_shift_table ''book'' = Inr table
          \<and> scan_chunk table ''book'' ''the book is here'' 0 = Some (Inr found))
   \<and> [] \<in> set [''book'', '''']
   \<and> (\<exists>e. bm_search scenario_fs ''a.txt'' [''book'', ''''] 4096 = Some (Inl e))
   \<and> search_keywords_in_files scenario_fs [''a.txt'', ''b.txt''] [''book'', ''''] 4096 = Some []"
proof -
  from empty_pattern_error_is_absorbed [of "[] :: string" "[]" scenario_fs "''a.txt''" "[''book'', '''']" 4096
      "[''a.txt'', ''b.txt'']"]
  have 1: "build_shift_table ([] :: string) = Inl IndexError"
    and 2: "(\<exists>e. bm_search scenario_fs ''a.txt'' [''book'', ''''] 4096 = Some (Inl e))
      \<and> search_keywords_in_files scenario_fs [''a.txt'', ''b.txt''] [''book'', ''''] 4096 = Some []"
    by simp_all
  from empty_pattern_error_is_absorbed [of "''book''" "''the book is here''" scenario_fs "''a.txt''"
      "[''book'', '''']" 4096 "[''a.txt'', ''b.txt'']"]
  have 3: "\<exists>table found. build_shift_table ''book'' = Inr table
          \<and> scan_chunk table ''book'' ''the book is here'' 0 = Some (Inr found)"
    by simp
  from 1 2 3 show ?thesis by simp
qed

text \<open>
  C8 fails on the code as stated. The empty keyword makes \<open>bm_search\<close> raise
  \<open>IndexError\<close>, but the worker and the coordinator return normally, with an empty
  dictionary: nothing reaches the caller of the search. And out of \<open>bm_search\<close> the
  empty pattern is not the only exception: a missing file raises as well.
\<close>

theorem empty_pattern_does_not_surface:
  "bm_search scenario_fs ''a.txt'' [''''] 4096 = Some (Inl IndexError)
   \<and> search_keywords_in_files scenario_fs [''a.txt''] [''''] 4096 = Some []
   \<and> multiprocessing_search scenario_fs [''a.txt''] [''''] 1 4096
       = Some (Inr \<lparr>processes = [[''a.txt'']], final_results = []\<rparr>)
   \<and> bm_search scenario_fs ''missing.txt'' [''book''] 4096 = Some (Inl FileNotFoundError)"
  by (simp add: scenario_fs_simps evaluation partition_evaluation)

subsection \<open>A negative buffer size\<close>

text \<open>
  Outside the range of C9: a negative buffer size makes \<open>f.read\<close> return the whole
  text, which is then the only chunk, and the keyword is found.
\<close>

lemma negative_buffer_reads_whole_file:
  "file_chunks (\<lambda>p. Inr ''xxhelloxx'') ''a.txt'' (- 1) = [''xxhelloxx'']
   \<and> bm_search (\<lambda>p. Inr ''xxhelloxx'') ''a.txt'' [''hello''] (- 1)
       = Some (Inr [(''hello'', [''a.txt''])])"
  by (simp add: file_chunks_def evaluation)

end
